theory Spec2Isabelle
  imports Complex_Main "HOL-Library.Word"
begin

unbundle bit_operations_syntax

section \<open>Stable Bloom Filter (sbf.go): data model\<close>

text \<open>
  The Go types of \<^verbatim>\<open>sbf.go\<close>: \<^verbatim>\<open>uint32\<close> and \<^verbatim>\<open>uint64\<close> are words whose
  arithmetic wraps, a \<^verbatim>\<open>[]byte\<close> is a list of 8-bit words, a \<^verbatim>\<open>Hash64\<close> is a
  function from byte slices to \<^verbatim>\<open>uint64\<close>, a \<^verbatim>\<open>time.Duration\<close> is a signed
  number of nanoseconds.
\<close>

type_synonym u32 = "32 word"
type_synonym u64 = "64 word"
type_synonym bytes = "8 word list"
type_synonym Hash64 = "bytes \<Rightarrow> u64"
type_synonym Duration = int

text \<open>
  Run-time panics of the Go program are values: a function that can panic returns
  \<open>fault + 'a\<close>, with \<open>Inl\<close> for the panic. An \<^verbatim>\<open>error\<close> built by
  \<^verbatim>\<open>errors.New\<close> is the message it carries.
\<close>

datatype fault =
    DivideByZero
  | IndexOutOfRange
  | CloseOfClosedChannel
  | NonPositiveTickerInterval

datatype error = ErrorString string

text \<open>Sequencing of steps that can panic: the first panic is the result.\<close>

definition and_then :: "fault + 'a \<Rightarrow> ('a \<Rightarrow> fault + 'b) \<Rightarrow> fault + 'b" where
  "and_then r f = (case r of Inl e \<Rightarrow> Inl e | Inr x \<Rightarrow> f x)"

subsection \<open>float64\<close>

text \<open>
  A \<^verbatim>\<open>float64\<close> is modelled by its value: a real number, one of the two
  infinities, or NaN. Arithmetic on finite values is exact in this model (the rounding
  of IEEE 754 to 53 bits is not represented); the special values follow IEEE 754 and
  the documentation of Go's \<^verbatim>\<open>math\<close> package. Both zeros are \<open>Finite 0\<close>: every
  zero that is divided by in this program is the conversion of an unsigned integer,
  which is \<open>+0\<close>.
\<close>

datatype float64 = NaN | NegInf | Finite real | PosInf

fun f64_lt :: "float64 \<Rightarrow> float64 \<Rightarrow> bool" where
  "f64_lt NaN y = False"
| "f64_lt x NaN = False"
| "f64_lt x NegInf = False"
| "f64_lt PosInf y = False"
| "f64_lt NegInf y = True"
| "f64_lt (Finite a) (Finite b) = (a < b)"
| "f64_lt (Finite a) PosInf = True"



subsection \<open>The random source\<close>

text \<open>
  A \<^verbatim>\<open>*rand.Rand\<close> is the stream of numbers it will produce, each in \<open>[0, 1)\<close>;
  \<^verbatim>\<open>Float64()\<close> returns the next one and advances the source.
\<close>

type_synonym rand = "nat \<Rightarrow> real"

definition Float64 :: "rand \<Rightarrow> real \<times> rand" where
  "Float64 randSrc = (randSrc 0, \<lambda>i. randSrc (Suc i))"

section \<open>Bit operations\<close>

text \<open>
  \<^verbatim>\<open>bits.TrailingZeros64\<close>: the number of trailing zero bits, 64 for 0.
  \<^verbatim>\<open>bits.OnesCount64\<close>: the number of one bits.
\<close>

fun trailing_zeros :: "nat \<Rightarrow> u64 \<Rightarrow> nat" where
  "trailing_zeros 0 w = 0"
| "trailing_zeros (Suc n) w =
     (if bit w 0 then 0 else Suc (trailing_zeros n (drop_bit 1 w)))"

definition TrailingZeros64 :: "u64 \<Rightarrow> nat" where
  "TrailingZeros64 w = trailing_zeros 64 w"

fun ones_count :: "nat \<Rightarrow> u64 \<Rightarrow> nat" where
  "ones_count 0 w = 0"
| "ones_count (Suc n) w =
     (if bit w 0 then 1 else 0) + ones_count n (drop_bit 1 w)"

definition OnesCount64 :: "u64 \<Rightarrow> nat" where
  "OnesCount64 w = ones_count 64 w"

text \<open>
  \<^verbatim>\<open>atomicSetBit(addr, n)\<close> run by one goroutine alone: \<^verbatim>\<open>mask := uint64(1) << n;
  *addr |= mask\<close>. The argument and the result are the word at \<^verbatim>\<open>addr\<close> before and
  after. (Its behaviour under interleaving is modelled in a later section.)
  \<^verbatim>\<open>atomicGetBit(addr, n)\<close>: \<^verbatim>\<open>(val & (uint64(1) << n)) != 0\<close>.
\<close>

definition atomicSetBit :: "u64 \<Rightarrow> u32 \<Rightarrow> u64" where
  "atomicSetBit w n = (let mask = push_bit (unat n) (1 :: u64) in w OR mask)"

definition atomicGetBit :: "u64 \<Rightarrow> u32 \<Rightarrow> bool" where
  "atomicGetBit w n = (w AND push_bit (unat n) (1 :: u64) \<noteq> 0)"

section \<open>decayBucket\<close>

text \<open>
  One iteration of the loop of \<^verbatim>\<open>decayBucket\<close>, given the number \<open>x\<close> drawn from
  the random source:
  \<^verbatim>\<open>
    bitPos := bits.TrailingZeros64(bucket)
    if randSrc.Float64() < decayRate { bucket &^= 1 << bitPos }
    bucket &= bucket - 1
  \<close>
\<close>

definition decayStep :: "u64 \<Rightarrow> float64 \<Rightarrow> real \<Rightarrow> u64" where
  "decayStep bucket decayRate x =
     (let bitPos = TrailingZeros64 bucket;
          bucket1 = (if f64_lt (Finite x) decayRate
                     then bucket AND NOT (push_bit bitPos 1) else bucket)
      in bucket1 AND (bucket1 - 1))"

lemma and_pred_less:
  fixes b :: u64
  assumes "b \<noteq> 0"
  shows "b AND (b - 1) < b"
proof -
  have "b AND (b - 1) \<le> b - 1"
    by (rule word_and_le1)
  moreover have "b - 1 < b"
    using assms by (simp add: word_less_nat_alt unat_minus_one unat_gt_0)
  ultimately show ?thesis by simp
qed

lemma decayStep_less:
  assumes "bucket \<noteq> 0"
  shows "decayStep bucket r x < bucket"
proof -
  define b1 where "b1 = (if f64_lt (Finite x) r
    then bucket AND NOT (push_bit (TrailingZeros64 bucket) 1) else bucket)"
  have le: "b1 \<le> bucket"
    unfolding b1_def by (simp add: word_and_le2)
  have eq: "decayStep bucket r x = b1 AND (b1 - 1)"
    by (simp add: decayStep_def b1_def Let_def)
  show ?thesis
  proof (cases "b1 = 0")
    case True
    then show ?thesis
      using assms eq by (simp add: word_greater_zero_iff)
  next
    case False
    then have "b1 AND (b1 - 1) < b1"
      by (rule and_pred_less)
    then show ?thesis
      using le eq by simp
  qed
qed

text \<open>The loop \<^verbatim>\<open>for bucket != 0 { ... }\<close>; it ends because each iteration lowers \<open>bucket\<close>.\<close>

function decayLoop :: "u64 \<Rightarrow> float64 \<Rightarrow> rand \<Rightarrow> u64 \<times> rand" where
  "decayLoop bucket decayRate randSrc =
     (if bucket \<noteq> 0
      then (case Float64 randSrc of
              (x, randSrc') \<Rightarrow> decayLoop (decayStep bucket decayRate x) decayRate randSrc')
      else (bucket, randSrc))"
  by pat_completeness auto
termination
  by (relation "measure (\<lambda>(b, r, s). unat b)")
     (auto simp: decayStep_less word_less_nat_alt [symmetric])

declare decayLoop.simps [simp del]

text \<open>
  \<^verbatim>\<open>decayBucket(bucket, decayRate, randSrc)\<close> returns the value of the variable
  \<open>bucket\<close> when the loop ends, and leaves the random source advanced.
\<close>

definition decayBucket :: "u64 \<Rightarrow> float64 \<Rightarrow> rand \<Rightarrow> u64 \<times> rand" where
  "decayBucket bucket decayRate randSrc =
     (if bucket = 0 then (0, randSrc) else decayLoop bucket decayRate randSrc)"

section \<open>The filter\<close>

text \<open>
  The struct \<^verbatim>\<open>StableBloomFilter\<close>. The fields \<^verbatim>\<open>decayTicker\<close>,
  \<^verbatim>\<open>stopChan\<close> and \<^verbatim>\<open>wg\<close> are kept by what the program observes of them:
  whether the ticker still runs (and its period), whether the channel has been closed,
  and the counter of the wait group (1 while the goroutine \<^verbatim>\<open>startDecay\<close> lives).
\<close>

datatype ticker = Ticking Duration | TickerStopped

datatype chan = ChanOpen | ChanClosed

record StableBloomFilter =
  sbf_m :: u32
  sbf_k :: u32
  sbf_decayRate :: float64
  sbf_filter :: "u64 list"
  sbf_numBuckets :: u32
  sbf_decayTicker :: ticker
  sbf_hashFuncs :: "Hash64 list"
  sbf_stopChan :: chan
  sbf_wg :: nat

text \<open>
  \<^verbatim>\<open>makeHashFunc(seed)\<close> wraps \<^verbatim>\<open>xxh3.HashSeed\<close> of the package
  \<^verbatim>\<open>github.com/zeebo/xxh3\<close>, which is not part of this repository: the hash is a
  parameter \<open>HashSeed\<close> of everything that builds the default hash functions.
\<close>

definition makeHashFunc :: "(bytes \<Rightarrow> u64 \<Rightarrow> u64) \<Rightarrow> u64 \<Rightarrow> Hash64" where
  "makeHashFunc HashSeed seed = (\<lambda>data. HashSeed data seed)"

text \<open>
  The alignment step of the constructor,
  \<^verbatim>\<open>if m%64 != 0 { m += 64 - (m % 64) }\<close>, on \<^verbatim>\<open>uint32\<close>.
\<close>

definition align64 :: "u32 \<Rightarrow> u32" where
  "align64 m = (if m mod 64 \<noteq> 0 then m + (64 - m mod 64) else m)"

text \<open>
  \<^verbatim>\<open>NewStableBloomFilter(m, hashFuncs, decayRate, decayInterval)\<close>. The function has
  no \<^verbatim>\<open>return\<close> with a non-nil error: its only results are the filter with a nil
  error (\<open>Inr (Inr sbf)\<close>) and the panic of \<^verbatim>\<open>time.NewTicker\<close>, which the Go
  library raises for a duration that is not positive. \<^verbatim>\<open>m += 64 - (m % 64)\<close> is
  \<^verbatim>\<open>uint32\<close> arithmetic and wraps; \<^verbatim>\<open>uint32(len(hashFuncs))\<close> truncates.
\<close>

definition NewStableBloomFilter ::
  "(bytes \<Rightarrow> u64 \<Rightarrow> u64) \<Rightarrow> u32 \<Rightarrow> Hash64 list \<Rightarrow> float64 \<Rightarrow> Duration
     \<Rightarrow> fault + (error + StableBloomFilter)" where
  "NewStableBloomFilter HashSeed m hashFuncs decayRate decayInterval =
     (let hashFuncs1 =
            (if length hashFuncs = 0
             then map (\<lambda>i. makeHashFunc HashSeed (word_of_nat i)) [0..<7]
             else hashFuncs);
          k = (word_of_nat (length hashFuncs1) :: u32);
          m1 = align64 m;
          numBuckets = m1 div 64
      in if decayInterval \<le> 0 then Inl NonPositiveTickerInterval
         else Inr (Inr \<lparr> sbf_m = m1, sbf_k = k, sbf_decayRate = decayRate,
                          sbf_filter = replicate (unat numBuckets) 0,
                          sbf_numBuckets = numBuckets,
                          sbf_decayTicker = Ticking decayInterval,
                          sbf_hashFuncs = hashFuncs1,
                          sbf_stopChan = ChanOpen,
                          sbf_wg = 1 \<rparr>))"

text \<open>
  \<^verbatim>\<open>hashIndex(data, i)\<close>: \<^verbatim>\<open>sum := sbf.hashFuncs[i](data); return uint32(sum %
  uint64(sbf.m))\<close>. Indexing the slice out of range and the remainder by zero panic.
\<close>

definition hashIndex :: "StableBloomFilter \<Rightarrow> bytes \<Rightarrow> nat \<Rightarrow> fault + u32" where
  "hashIndex sbf data i =
     (if length (sbf_hashFuncs sbf) \<le> i then Inl IndexOutOfRange
      else let sum = (sbf_hashFuncs sbf ! i) data in
        if (ucast (sbf_m sbf) :: u64) = 0 then Inl DivideByZero
        else Inr (ucast (sum mod ucast (sbf_m sbf))))"

text \<open>
  \<^verbatim>\<open>Add(data)\<close>: the loop \<^verbatim>\<open>for i := uint32(0); i < sbf.k; i++\<close> runs over the
  indices \<open>0, ..., k - 1\<close> in order; a panic ends it.
\<close>

fun Add_loop :: "StableBloomFilter \<Rightarrow> bytes \<Rightarrow> nat list \<Rightarrow> fault + StableBloomFilter" where
  "Add_loop sbf data [] = Inr sbf"
| "Add_loop sbf data (i # rest) =
     (case hashIndex sbf data i of
        Inl e \<Rightarrow> Inl e
      | Inr idx \<Rightarrow>
          (let bucketIdx = unat (idx div 64); bitIdx = idx mod 64 in
           if length (sbf_filter sbf) \<le> bucketIdx then Inl IndexOutOfRange
           else Add_loop
                  (sbf\<lparr>sbf_filter := (sbf_filter sbf)
                         [bucketIdx := atomicSetBit (sbf_filter sbf ! bucketIdx) bitIdx]\<rparr>)
                  data rest))"

definition Add :: "StableBloomFilter \<Rightarrow> bytes \<Rightarrow> fault + StableBloomFilter" where
  "Add sbf data = Add_loop sbf data [0..<unat (sbf_k sbf)]"

text \<open>\<^verbatim>\<open>Check(data)\<close>: the same loop, returning false at the first bit that is not set.\<close>

fun Check_loop :: "StableBloomFilter \<Rightarrow> bytes \<Rightarrow> nat list \<Rightarrow> fault + bool" where
  "Check_loop sbf data [] = Inr True"
| "Check_loop sbf data (i # rest) =
     (case hashIndex sbf data i of
        Inl e \<Rightarrow> Inl e
      | Inr idx \<Rightarrow>
          (let bucketIdx = unat (idx div 64); bitIdx = idx mod 64 in
           if length (sbf_filter sbf) \<le> bucketIdx then Inl IndexOutOfRange
           else if \<not> atomicGetBit (sbf_filter sbf ! bucketIdx) bitIdx then Inr False
           else Check_loop sbf data rest))"

definition Check :: "StableBloomFilter \<Rightarrow> bytes \<Rightarrow> fault + bool" where
  "Check sbf data = Check_loop sbf data [0..<unat (sbf_k sbf)]"

section \<open>Decay\<close>

text \<open>
  The goroutine that \<^verbatim>\<open>decay\<close> starts for the chunk \<open>[start, end)\<close>:
  \<^verbatim>\<open>
    for j := start; j < end; j++ {
        oldVal := atomic.LoadUint64(&sbf.filter[j])
        newVal := decayBucket(oldVal, decayRate, randSrc)
        atomic.StoreUint64(&sbf.filter[j], newVal)
    }
  \<close>
  The list argument holds the values of \<open>j\<close> in order.
\<close>

fun decay_worker :: "u64 list \<Rightarrow> float64 \<Rightarrow> rand \<Rightarrow> nat list \<Rightarrow> fault + u64 list" where
  "decay_worker ws decayRate randSrc [] = Inr ws"
| "decay_worker ws decayRate randSrc (j # rest) =
     (if length ws \<le> j then Inl IndexOutOfRange
      else (case decayBucket (ws ! j) decayRate randSrc of
              (newVal, randSrc') \<Rightarrow> decay_worker (ws[j := newVal]) decayRate randSrc' rest))"

text \<open>
  The chunk of worker \<open>i\<close> of \<open>numCPU\<close> over \<open>numBuckets\<close> words, as \<^verbatim>\<open>decay\<close>
  computes it.
\<close>

definition chunk :: "nat \<Rightarrow> nat \<Rightarrow> nat \<Rightarrow> nat \<times> nat" where
  "chunk numBuckets numCPU i =
     (let chunkSize0 = numBuckets div numCPU;
          chunkSize = (if chunkSize0 = 0 then numBuckets else chunkSize0);
          start = i * chunkSize;
          end0 = start + chunkSize;
          end1 = (if i = numCPU - 1 \<or> end0 > numBuckets then numBuckets else end0)
      in (start, end1))"

text \<open>
  \<^verbatim>\<open>decay()\<close>. \<open>numCPU\<close> is \<^verbatim>\<open>runtime.NumCPU()\<close>; \<open>newRand i\<close> is the random
  source that worker \<open>i\<close> seeds from the clock. The chunks are disjoint, so the
  workers, which run concurrently, do not touch each other's words: the model runs them
  one after the other. A panic in a worker ends the program.
\<close>

fun decay_workers ::
  "nat \<Rightarrow> nat \<Rightarrow> (nat \<Rightarrow> rand) \<Rightarrow> float64 \<Rightarrow> u64 list \<Rightarrow> nat list \<Rightarrow> fault + u64 list" where
  "decay_workers numBuckets numCPU newRand decayRate ws [] = Inr ws"
| "decay_workers numBuckets numCPU newRand decayRate ws (i # rest) =
     (case chunk numBuckets numCPU i of
        (start, end1) \<Rightarrow>
          (case decay_worker ws decayRate (newRand i) [start..<end1] of
             Inl e \<Rightarrow> Inl e
           | Inr ws' \<Rightarrow> decay_workers numBuckets numCPU newRand decayRate ws' rest))"

definition decay :: "nat \<Rightarrow> (nat \<Rightarrow> rand) \<Rightarrow> StableBloomFilter \<Rightarrow> fault + StableBloomFilter" where
  "decay numCPU newRand sbf =
     (if numCPU = 0 then Inl DivideByZero
      else (case decay_workers (unat (sbf_numBuckets sbf)) numCPU newRand (sbf_decayRate sbf)
                   (sbf_filter sbf) [0..<numCPU] of
              Inl e \<Rightarrow> Inl e
            | Inr ws \<Rightarrow> Inr (sbf\<lparr>sbf_filter := ws\<rparr>)))"

section \<open>Teardown\<close>

text \<open>
  The goroutine \<^verbatim>\<open>startDecay\<close> loops on
  \<^verbatim>\<open>select { case <-sbf.decayTicker.C: sbf.decay(); case <-sbf.stopChan: return }\<close>.
  It is modelled from the moment the stop channel is closed. Before it takes the second
  case and returns, it finishes the cycle of \<^verbatim>\<open>decay\<close> that is in flight, and it
  may take a tick that is already in the channel of the ticker and run one more cycle.
  The argument \<open>pending\<close> lists these cycles in order; each is given by the value of
  \<^verbatim>\<open>runtime.NumCPU()\<close> and the random sources of its workers.
\<close>

fun startDecay ::
  "(nat \<times> (nat \<Rightarrow> rand)) list \<Rightarrow> StableBloomFilter \<Rightarrow> fault + StableBloomFilter" where
  "startDecay [] sbf = Inr sbf"
| "startDecay ((numCPU, newRand) # pending) sbf =
     and_then (decay numCPU newRand sbf) (startDecay pending)"

text \<open>
  \<^verbatim>\<open>StopDecay()\<close>: \<^verbatim>\<open>sbf.decayTicker.Stop(); close(sbf.stopChan); sbf.wg.Wait()\<close>.
  Stopping a ticker never panics; closing a channel that is already closed does, before
  \<^verbatim>\<open>Wait\<close> is reached. \<^verbatim>\<open>Wait\<close> returns when the goroutine
  \<^verbatim>\<open>startDecay\<close> has returned and the wait group is at 0; what that goroutine
  still did to the filter is part of the result.
\<close>

definition StopDecay ::
  "(nat \<times> (nat \<Rightarrow> rand)) list \<Rightarrow> StableBloomFilter \<Rightarrow> fault + StableBloomFilter" where
  "StopDecay pending sbf =
     (let sbf1 = sbf\<lparr>sbf_decayTicker := TickerStopped\<rparr> in
      case sbf_stopChan sbf1 of
        ChanClosed \<Rightarrow> Inl CloseOfClosedChannel
      | ChanOpen \<Rightarrow>
          and_then (startDecay pending (sbf1\<lparr>sbf_stopChan := ChanClosed\<rparr>))
            (\<lambda>sbf2. Inr (sbf2\<lparr>sbf_wg := 0\<rparr>)))"

section \<open>float64 arithmetic and the \<^verbatim>\<open>math\<close> package\<close>










section \<open>Estimation and sizing\<close>





section \<open>Two goroutines in \<^verbatim>\<open>atomicSetBit\<close> on one word\<close>

text \<open>
  \<^verbatim>\<open>*addr |= mask\<close> is an ordinary read of \<^verbatim>\<open>*addr\<close> followed by an ordinary
  write: the function calls nothing of \<^verbatim>\<open>sync/atomic\<close>. A goroutine inside
  \<^verbatim>\<open>atomicSetBit(addr, n)\<close> is therefore in one of three states: it has not read the
  word yet, it holds the value it read, or it has written. A step of the goroutine
  takes the word in memory and its state to the next ones.
\<close>

datatype setbit_state = NotRead | HasRead u64 | Written

fun atomicSetBit_step :: "u32 \<Rightarrow> u64 \<times> setbit_state \<Rightarrow> u64 \<times> setbit_state" where
  "atomicSetBit_step n (mem, NotRead) = (mem, HasRead mem)"
| "atomicSetBit_step n (mem, HasRead v) = (v OR push_bit (unat n) 1, Written)"
| "atomicSetBit_step n (mem, Written) = (mem, Written)"

text \<open>
  Two goroutines \<open>A\<close> and \<open>B\<close> call \<^verbatim>\<open>atomicSetBit\<close> on the same word with the bit
  numbers \<open>na\<close> and \<open>nb\<close>; a schedule says which goroutine takes each step.
\<close>

datatype goroutine = GoA | GoB

fun run_schedule ::
  "u32 \<Rightarrow> u32 \<Rightarrow> goroutine list \<Rightarrow> u64 \<times> setbit_state \<times> setbit_state
     \<Rightarrow> u64 \<times> setbit_state \<times> setbit_state" where
  "run_schedule na nb [] st = st"
| "run_schedule na nb (GoA # rest) (mem, a, b) =
     (case atomicSetBit_step na (mem, a) of (mem', a') \<Rightarrow> run_schedule na nb rest (mem', a', b))"
| "run_schedule na nb (GoB # rest) (mem, a, b) =
     (case atomicSetBit_step nb (mem, b) of (mem', b') \<Rightarrow> run_schedule na nb rest (mem', a, b'))"

section \<open>Filters that the constructor builds\<close>

text \<open>
  What \<^verbatim>\<open>NewStableBloomFilter\<close> establishes and \<^verbatim>\<open>Add\<close> and \<^verbatim>\<open>decay\<close> keep:
  the slice \<^verbatim>\<open>filter\<close> has \<open>m / 64\<close> words and \<open>m\<close> is a multiple of 64, \<open>k\<close> is
  the number of hash functions and is not 0.
\<close>

definition wf_sbf :: "StableBloomFilter \<Rightarrow> bool" where
  "wf_sbf sbf \<longleftrightarrow>
     unat (sbf_m sbf) = 64 * length (sbf_filter sbf)
     \<and> sbf_numBuckets sbf = sbf_m sbf div 64
     \<and> length (sbf_hashFuncs sbf) = unat (sbf_k sbf)
     \<and> sbf_k sbf \<noteq> 0"

text \<open>The bit positions of an element: \<open>hash_i(data) mod m\<close> for \<open>i < k\<close>.\<close>

definition bit_index :: "StableBloomFilter \<Rightarrow> bytes \<Rightarrow> nat \<Rightarrow> nat" where
  "bit_index sbf data i = unat ((sbf_hashFuncs sbf ! i) data) mod unat (sbf_m sbf)"

definition bit_set :: "u64 list \<Rightarrow> nat \<Rightarrow> bool" where
  "bit_set ws pos = bit (ws ! (pos div 64)) (pos mod 64)"

text \<open>
  A filter of 64 bits with one hash function (the constant 3), as
  \<^verbatim>\<open>NewStableBloomFilter(64, hashFuncs, 0.0, 1000)\<close> builds it.
\<close>

definition sbf64 :: StableBloomFilter where
  "sbf64 = \<lparr> sbf_m = 64, sbf_k = 1, sbf_decayRate = Finite 0, sbf_filter = [0],
             sbf_numBuckets = 1, sbf_decayTicker = Ticking 1000,
             sbf_hashFuncs = [\<lambda>data. 3], sbf_stopChan = ChanOpen, sbf_wg = 1 \<rparr>"


section \<open>Properties of the constructor\<close>

lemma NewStableBloomFilter_ok:
  assumes "0 < decayInterval"
  shows "NewStableBloomFilter HashSeed m hashFuncs decayRate decayInterval =
    Inr (Inr \<lparr> sbf_m = align64 m,
                sbf_k = word_of_nat (length (if length hashFuncs = 0
                          then map (\<lambda>i. makeHashFunc HashSeed (word_of_nat i)) [0..<7]
                          else hashFuncs)),
                sbf_decayRate = decayRate,
                sbf_filter = replicate (unat (align64 m div 64)) 0,
                sbf_numBuckets = align64 m div 64,
                sbf_decayTicker = Ticking decayInterval,
                sbf_hashFuncs = (if length hashFuncs = 0
                          then map (\<lambda>i. makeHashFunc HashSeed (word_of_nat i)) [0..<7]
                          else hashFuncs),
                sbf_stopChan = ChanOpen, sbf_wg = 1 \<rparr>)"
  using assms by (simp add: NewStableBloomFilter_def Let_def)

lemma k_of_length:
  fixes hs :: "Hash64 list"
  assumes "0 < length hs" "length hs < 2 ^ 32"
  shows "unat (word_of_nat (length hs) :: u32) = length hs"
    and "(word_of_nat (length hs) :: u32) \<noteq> 0"
proof -
  show u: "unat (word_of_nat (length hs) :: u32) = length hs"
    using assms(2) by (simp add: unat_of_nat)
  show "(word_of_nat (length hs) :: u32) \<noteq> 0"
  proof
    assume "(word_of_nat (length hs) :: u32) = 0"
    then have "unat (word_of_nat (length hs) :: u32) = 0" by simp
    with u assms(1) show False by simp
  qed
qed

subsection \<open>Alignment of the size\<close>

lemma unat_mod64: "unat (m mod 64 :: u32) = unat m mod 64"
  by (simp add: unat_mod)

lemma unat_pad: "unat (64 - m mod 64 :: u32) = 64 - unat m mod 64"
proof -
  have "m mod 64 \<le> 64"
    by (simp add: word_le_nat_alt unat_mod64 less_imp_le)
  then have "unat (64 - m mod 64) = unat (64 :: u32) - unat (m mod 64)"
    by (rule unat_sub)
  then show ?thesis by (simp add: unat_mod64)
qed

lemma unat_align64:
  "unat (align64 m) =
     (if unat m mod 64 \<noteq> 0 then (unat m + (64 - unat m mod 64)) mod 2 ^ 32 else unat m)"
proof -
  have "(m mod 64 = 0) = (unat m mod 64 = 0)"
    by (metis unat_mod64 unat_eq_0)
  then show ?thesis
    by (simp add: align64_def unat_word_ariths(1) unat_pad)
qed

lemma round_up_nat:
  fixes n :: nat
  shows "64 * ((n + 63) div 64) = (if n mod 64 = 0 then n else n + (64 - n mod 64))"
proof -
  define q r where "q = n div 64" and "r = n mod 64"
  have n: "n = r + q * 64" and r: "r < 64"
    by (simp_all add: q_def r_def)
  have "(n + 63) div 64 = q + (r + 63) div 64"
    unfolding n by simp
  moreover have "(r + 63) div 64 = (if r = 0 then 0 else 1)"
  proof (cases "r = 0")
    case True
    then show ?thesis by simp
  next
    case False
    then have "1 * 64 \<le> r + 63" "r + 63 < Suc 1 * 64"
      using r by simp_all
    then have "(r + 63) div 64 = 1"
      by (intro div_nat_eqI) simp_all
    then show ?thesis using False by simp
  qed
  ultimately have "64 * ((n + 63) div 64) = (if r = 0 then 64 * q else 64 * q + 64)"
    by simp
  moreover have "n mod 64 = r"
    by (simp add: r_def)
  ultimately show ?thesis
    using r by (simp add: n)
qed

lemma round_up_nat_bounds:
  fixes n :: nat
  shows "n \<le> 64 * ((n + 63) div 64)" and "64 * ((n + 63) div 64) < n + 64"
proof -
  define r where "r = n mod 64"
  have r: "r < 64" by (simp add: r_def)
  have e: "64 * ((n + 63) div 64) = (if r = 0 then n else n + (64 - r))"
    unfolding r_def by (rule round_up_nat)
  show "n \<le> 64 * ((n + 63) div 64)"
    unfolding e by simp
  show "64 * ((n + 63) div 64) < n + 64"
    unfolding e using r by (cases "r = 0") simp_all
qed

lemma align64_dvd: "64 dvd unat (align64 m)"
proof (cases "unat m mod 64 = 0")
  case True
  then show ?thesis by (simp add: unat_align64 dvd_eq_mod_eq_0)
next
  case False
  have "64 * ((unat m + 63) div 64) = unat m + (64 - unat m mod 64)"
    using False by (simp only: round_up_nat if_False)
  then have a: "64 dvd (unat m + (64 - unat m mod 64))"
    by (metis dvd_triv_left)
  have b: "(64::nat) dvd 2 ^ 32" by simp
  from a b have "64 dvd (unat m + (64 - unat m mod 64)) mod 2 ^ 32"
    by (simp add: dvd_mod)
  then show ?thesis using False by (simp add: unat_align64)
qed

lemma pad_fits:
  fixes n r :: nat
  assumes "n \<le> 4294967232" "0 < r"
  shows "n + (64 - r) < 4294967296"
  using assms by simp

lemma align64_exact:
  assumes "unat m \<le> 4294967232"
  shows "unat (align64 m) = 64 * ((unat m + 63) div 64)"
proof (cases "unat m mod 64 = 0")
  case True
  then have "unat (align64 m) = unat m"
    by (simp add: unat_align64)
  also have "\<dots> = 64 * ((unat m + 63) div 64)"
    using True by (simp add: round_up_nat)
  finally show ?thesis .
next
  case False
  then have "0 < unat m mod 64" by simp
  with assms have "unat m + (64 - unat m mod 64) < 4294967296"
    by (rule pad_fits)
  then have fits: "unat m + (64 - unat m mod 64) < 2 ^ 32"
    by simp
  have "unat (align64 m) = (unat m + (64 - unat m mod 64)) mod 2 ^ 32"
    using False by (simp add: unat_align64)
  also have "\<dots> = unat m + (64 - unat m mod 64)"
    using fits by (rule mod_less)
  also have "\<dots> = 64 * ((unat m + 63) div 64)"
    using False by (simp only: round_up_nat if_False)
  finally show ?thesis .
qed

text \<open>
  C7, as the code has it. For every requested size the stored \<open>m\<close> is a multiple of
  64, and for a request of at most \<open>2^32 - 64 = 4294967232\<close> bits it is the request
  rounded up to the next multiple of 64: the least multiple of 64 that is not below
  the request. (The constructor needs a positive decay interval to return.)
\<close>

theorem NewStableBloomFilter_rounds_up:
  assumes "0 < decayInterval"
  shows "\<exists>sbf. NewStableBloomFilter HashSeed m hashFuncs decayRate decayInterval = Inr (Inr sbf)
           \<and> 64 dvd unat (sbf_m sbf)
           \<and> (unat m \<le> 4294967232 \<longrightarrow>
                unat (sbf_m sbf) = 64 * ((unat m + 63) div 64)
                \<and> unat m \<le> unat (sbf_m sbf) \<and> unat (sbf_m sbf) < unat m + 64)"
  using assms
  by (simp add: NewStableBloomFilter_ok align64_dvd align64_exact round_up_nat_bounds)

text \<open>Requesting 100 bits yields 128, in two words.\<close>

theorem NewStableBloomFilter_rounds_up_witness:
  "\<exists>sbf. NewStableBloomFilter (\<lambda>data seed. 0) 100 [\<lambda>data. 3] (Finite 0) 1000 = Inr (Inr sbf)
           \<and> 64 dvd unat (sbf_m sbf) \<and> sbf_m sbf = 128 \<and> length (sbf_filter sbf) = 2"
proof -
  have d: "(0 :: int) < 1000" by simp
  from NewStableBloomFilter_rounds_up [OF d, of "\<lambda>data seed. 0" 100 "[\<lambda>data. 3]" "Finite 0"]
  obtain sbf where
    s: "NewStableBloomFilter (\<lambda>data seed. 0) 100 [\<lambda>data. 3] (Finite 0) 1000 = Inr (Inr sbf)"
    and dv: "64 dvd unat (sbf_m sbf)"
    and ex: "unat (sbf_m sbf) = 64 * ((unat (100 :: u32) + 63) div 64)"
    by auto
  from ex have "unat (sbf_m sbf) = unat (128 :: u32)" by simp
  then have m: "sbf_m sbf = 128" by (simp only: word_unat_eq_iff)
  have "length (sbf_filter sbf) = 2"
    using s by (auto simp: NewStableBloomFilter_def Let_def align64_def)
  with s dv m show ?thesis by blast
qed

text \<open>
  The claim C7 as stated, for every requested size, fails where the rounded size does
  not fit \<^verbatim>\<open>uint32\<close>: a request of \<open>2^32 - 1\<close> bits wraps to a filter of 0 bits
  with no words.
\<close>

theorem NewStableBloomFilter_wraps_counterexample:
  "NewStableBloomFilter (\<lambda>data seed. 0) 4294967295 [\<lambda>data. 3] (Finite 0) 1000 =
     Inr (Inr \<lparr> sbf_m = 0, sbf_k = 1, sbf_decayRate = Finite 0, sbf_filter = [],
                 sbf_numBuckets = 0, sbf_decayTicker = Ticking 1000,
                 sbf_hashFuncs = [\<lambda>data. 3], sbf_stopChan = ChanOpen, sbf_wg = 1 \<rparr>)"
  by (simp add: NewStableBloomFilter_def align64_def)

subsection \<open>Invalid construction input\<close>

text \<open>
  C3, as the code has it. The constructor validates nothing and never returns an
  error value: for every bit size, every set of hash functions, every decay rate and
  every decay interval above 0 it returns a filter with a nil error, which stores the
  decay rate as given and the aligned size.
\<close>

theorem NewStableBloomFilter_never_returns_error:
  "NewStableBloomFilter HashSeed m hashFuncs decayRate decayInterval \<noteq> Inr (Inl e)
   \<and> (0 < decayInterval \<longrightarrow>
        (\<exists>sbf. NewStableBloomFilter HashSeed m hashFuncs decayRate decayInterval = Inr (Inr sbf)
           \<and> sbf_decayRate sbf = decayRate \<and> sbf_m sbf = align64 m))"
  by (simp add: NewStableBloomFilter_def Let_def)

theorem NewStableBloomFilter_never_returns_error_witness:
  "NewStableBloomFilter (\<lambda>data seed. 0) 0 [\<lambda>data. 3] (Finite 2) 1000 \<noteq> Inr (Inl (ErrorString []))
   \<and> (\<exists>sbf. NewStableBloomFilter (\<lambda>data seed. 0) 0 [\<lambda>data. 3] (Finite 2) 1000 = Inr (Inr sbf)
           \<and> sbf_decayRate sbf = Finite 2 \<and> sbf_m sbf = 0)"
  using NewStableBloomFilter_never_returns_error
    [of "\<lambda>data seed. 0" 0 "[\<lambda>data. 3]" "Finite 2" 1000 "ErrorString []"]
  by (simp add: align64_def)

text \<open>
  The claim C3 as stated (every invalid input is answered by an error value, never by
  a panic) fails: a size of 0 with a decay rate of 2 is answered by a filter and a nil
  error, and a decay interval of 0 by the panic of \<^verbatim>\<open>time.NewTicker\<close>.
\<close>

theorem NewStableBloomFilter_invalid_input_counterexample:
  "NewStableBloomFilter (\<lambda>data seed. 0) 0 [\<lambda>data. 3] (Finite 2) 1000 =
     Inr (Inr \<lparr> sbf_m = 0, sbf_k = 1, sbf_decayRate = Finite 2, sbf_filter = [],
                 sbf_numBuckets = 0, sbf_decayTicker = Ticking 1000,
                 sbf_hashFuncs = [\<lambda>data. 3], sbf_stopChan = ChanOpen, sbf_wg = 1 \<rparr>)
   \<and> NewStableBloomFilter (\<lambda>data seed. 0) 64 [\<lambda>data. 3] (Finite (1 / 2)) 0 =
     Inl NonPositiveTickerInterval"
  by (simp add: NewStableBloomFilter_def align64_def)

subsection \<open>A filter of size 0\<close>






subsection \<open>The shape of a constructed filter\<close>

lemma NewStableBloomFilter_wf:
  assumes "length hashFuncs < 2 ^ 32"
    and "NewStableBloomFilter HashSeed m hashFuncs decayRate decayInterval = Inr (Inr sbf)"
  shows "wf_sbf sbf"
proof -
  let ?hs = "if length hashFuncs = 0
             then map (\<lambda>i. makeHashFunc HashSeed (word_of_nat i)) [0..<7] else hashFuncs"
  have d: "0 < decayInterval"
    using assms(2) by (auto simp: NewStableBloomFilter_def Let_def split: if_splits)
  have len: "0 < length ?hs" "length ?hs < 2 ^ 32"
    using assms(1) by auto
  have m: "64 * (unat (align64 m) div 64) = unat (align64 m)"
    using align64_dvd [of m] by (simp add: dvd_mult_div_cancel)
  have "sbf = \<lparr> sbf_m = align64 m, sbf_k = word_of_nat (length ?hs),
                 sbf_decayRate = decayRate,
                 sbf_filter = replicate (unat (align64 m div 64)) 0,
                 sbf_numBuckets = align64 m div 64,
                 sbf_decayTicker = Ticking decayInterval,
                 sbf_hashFuncs = ?hs, sbf_stopChan = ChanOpen, sbf_wg = 1 \<rparr>"
    using assms(2) unfolding NewStableBloomFilter_ok [OF d] by simp
  then show ?thesis
    using k_of_length [OF len] m by (simp add: wf_sbf_def unat_div)
qed

subsection \<open>The 64-bit filter\<close>

lemma sbf64_constructed:
  "NewStableBloomFilter HashSeed 64 [\<lambda>data. 3] (Finite 0) 1000 = Inr (Inr sbf64)"
  by (simp add: NewStableBloomFilter_def align64_def sbf64_def)

section \<open>Properties of \<^verbatim>\<open>Add\<close> and \<^verbatim>\<open>Check\<close>\<close>

lemma unat_ucast_up: "unat (ucast (w :: u32) :: u64) = unat w"
  by (simp add: unsigned_ucast_eq take_bit_nat_eq_self_iff)
     (rule less_trans [OF unsigned_less], simp)

lemma ucast_m_zero: "((ucast (w :: u32) :: u64) = 0) = (w = 0)"
  by (metis unat_ucast_up unat_eq_0)

lemma unat_ucast_down:
  fixes x :: u64
  assumes "unat x < 2 ^ 32"
  shows "unat (ucast x :: u32) = unat x"
  using assms by (simp add: unsigned_ucast_eq take_bit_nat_eq_self_iff)

lemma atomicGetBit_bit: "atomicGetBit w n = bit w (unat n)"
  by (simp add: atomicGetBit_def and_exp_eq_0_iff_not_bit)

lemma bit_atomicSetBit:
  assumes "unat n < 64"
  shows "bit (atomicSetBit w n) j = (bit w j \<or> j = unat n)"
  using assms by (auto simp: atomicSetBit_def bit_simps)

lemma hashIndex_wf:
  assumes "wf_sbf sbf" "sbf_m sbf \<noteq> 0" "i < unat (sbf_k sbf)"
  shows "\<exists>idx. hashIndex sbf data i = Inr idx \<and> unat idx = bit_index sbf data i"
proof -
  let ?sum = "(sbf_hashFuncs sbf ! i) data"
  have len: "i < length (sbf_hashFuncs sbf)"
    using assms(1,3) by (simp add: wf_sbf_def)
  have nz: "(ucast (sbf_m sbf) :: u64) \<noteq> 0"
    using assms(2) by (simp add: ucast_m_zero)
  have "unat (?sum mod ucast (sbf_m sbf)) = unat ?sum mod unat (sbf_m sbf)"
    by (simp add: unat_mod unat_ucast_up)
  moreover have "unat ?sum mod unat (sbf_m sbf) < unat (sbf_m sbf)"
    using assms(2) by (simp add: unat_gt_0)
  moreover have "unat (sbf_m sbf) < 2 ^ 32"
    using unsigned_less [of "sbf_m sbf"] by simp
  ultimately have "unat (ucast (?sum mod ucast (sbf_m sbf)) :: u32) = unat ?sum mod unat (sbf_m sbf)"
    by (simp add: unat_ucast_down)
  then show ?thesis
    using len nz by (simp add: hashIndex_def bit_index_def Let_def)
qed

lemma bit_index_less:
  assumes "sbf_m sbf \<noteq> 0"
  shows "bit_index sbf data i < unat (sbf_m sbf)"
  using assms by (simp add: bit_index_def unat_gt_0)

lemma bucket_in_range:
  assumes "wf_sbf sbf" "sbf_m sbf \<noteq> 0"
  shows "bit_index sbf data i div 64 < length (sbf_filter sbf)"
proof -
  have "bit_index sbf data i < 64 * length (sbf_filter sbf)"
    using bit_index_less [OF assms(2)] assms(1) by (simp add: wf_sbf_def)
  then show ?thesis
    by (simp add: less_mult_imp_div_less mult.commute)
qed

lemma unat_div64: "unat (idx div 64 :: u32) = unat idx div 64"
  by (simp add: unat_div)

text \<open>\<open>Check\<close> reads, for each \<open>i < k\<close>, the bit at \<open>bit_index sbf data i\<close>; \<open>Add\<close> sets exactly these bits.\<close>

lemma Check_loop_char:
  assumes "wf_sbf sbf" "sbf_m sbf \<noteq> 0" "\<forall>i \<in> set idxs. i < unat (sbf_k sbf)"
  shows "Check_loop sbf data idxs =
           Inr (\<forall>i \<in> set idxs. bit_set (sbf_filter sbf) (bit_index sbf data i))"
  using assms(3)
proof (induction idxs)
  case Nil
  then show ?case by simp
next
  case (Cons i rest)
  then have i: "i < unat (sbf_k sbf)" and rest: "\<forall>j \<in> set rest. j < unat (sbf_k sbf)"
    by simp_all
  from hashIndex_wf [OF assms(1,2) i, of data]
  obtain idx where h: "hashIndex sbf data i = Inr idx" and u: "unat idx = bit_index sbf data i"
    by blast
  have b: "unat (idx div 64) < length (sbf_filter sbf)"
    using bucket_in_range [OF assms(1,2), of data i] by (simp add: unat_div64 u)
  have g: "atomicGetBit (sbf_filter sbf ! unat (idx div 64)) (idx mod 64)
             = bit_set (sbf_filter sbf) (bit_index sbf data i)"
    by (simp add: atomicGetBit_bit bit_set_def unat_div64 unat_mod64 u)
  show ?case
    using h b g Cons.IH [OF rest] by (simp add: Let_def)
qed

lemma Check_char:
  assumes "wf_sbf sbf" "sbf_m sbf \<noteq> 0"
  shows "Check sbf data =
           Inr (\<forall>i < unat (sbf_k sbf). bit_set (sbf_filter sbf) (bit_index sbf data i))"
proof -
  have "Check sbf data = Inr (\<forall>i \<in> set [0..<unat (sbf_k sbf)].
          bit_set (sbf_filter sbf) (bit_index sbf data i))"
    unfolding Check_def by (rule Check_loop_char [OF assms]) simp
  moreover have "(\<forall>i \<in> set [0..<unat (sbf_k sbf)].
          bit_set (sbf_filter sbf) (bit_index sbf data i))
       = (\<forall>i < unat (sbf_k sbf). bit_set (sbf_filter sbf) (bit_index sbf data i))"
    by auto
  ultimately show ?thesis by simp
qed

lemma bit_set_update:
  assumes "b < length ws"
  shows "bit_set (ws[b := w]) pos =
           (if pos div 64 = b then bit w (pos mod 64) else bit_set ws pos)"
  using assms by (simp add: bit_set_def)

lemma pos_eq_iff:
  fixes pos p :: nat
  shows "(pos div 64 = p div 64 \<and> pos mod 64 = p mod 64) = (pos = p)"
  by (metis div_mult_mod_eq)

lemma Add_loop_char:
  assumes "wf_sbf sbf" "sbf_m sbf \<noteq> 0" "\<forall>i \<in> set idxs. i < unat (sbf_k sbf)"
  shows "\<exists>ws. Add_loop sbf data idxs = Inr (sbf\<lparr>sbf_filter := ws\<rparr>)
           \<and> length ws = length (sbf_filter sbf)
           \<and> (\<forall>pos. bit_set ws pos =
                 (bit_set (sbf_filter sbf) pos \<or> pos \<in> bit_index sbf data ` set idxs))"
  using assms
proof (induction idxs arbitrary: sbf)
  case Nil
  have "sbf\<lparr>sbf_filter := sbf_filter sbf\<rparr> = sbf" by simp
  then show ?case by (intro exI [of _ "sbf_filter sbf"]) simp
next
  case (Cons i rest)
  then have i: "i < unat (sbf_k sbf)" and rest: "\<forall>j \<in> set rest. j < unat (sbf_k sbf)"
    by simp_all
  from hashIndex_wf [OF Cons.prems(1,2) i, of data]
  obtain idx where h: "hashIndex sbf data i = Inr idx" and u: "unat idx = bit_index sbf data i"
    by blast
  let ?b = "unat (idx div 64)"
  let ?w = "atomicSetBit (sbf_filter sbf ! ?b) (idx mod 64)"
  let ?sbf1 = "sbf\<lparr>sbf_filter := (sbf_filter sbf)[?b := ?w]\<rparr>"
  have b: "?b < length (sbf_filter sbf)"
    using bucket_in_range [OF Cons.prems(1,2), of data i] by (simp add: unat_div64 u)
  have wf1: "wf_sbf ?sbf1" "sbf_m ?sbf1 \<noteq> 0" "\<forall>j \<in> set rest. j < unat (sbf_k ?sbf1)"
    using Cons.prems(1,2) rest by (simp_all add: wf_sbf_def)
  have bi: "bit_index ?sbf1 data = bit_index sbf data"
    by (rule ext) (simp add: bit_index_def)
  from Cons.IH [OF wf1]
  obtain ws where a: "Add_loop ?sbf1 data rest = Inr (?sbf1\<lparr>sbf_filter := ws\<rparr>)"
    and l: "length ws = length (sbf_filter ?sbf1)"
    and c: "\<forall>pos. bit_set ws pos =
              (bit_set (sbf_filter ?sbf1) pos \<or> pos \<in> bit_index ?sbf1 data ` set rest)"
    by blast
  have step: "bit_set (sbf_filter ?sbf1) pos =
                (bit_set (sbf_filter sbf) pos \<or> pos = bit_index sbf data i)" for pos
  proof -
    have m64: "unat (idx mod 64) < 64"
      by (simp add: unat_mod64)
    have "bit_set (sbf_filter ?sbf1) pos =
            (if pos div 64 = ?b then bit ?w (pos mod 64) else bit_set (sbf_filter sbf) pos)"
      using b by (simp add: bit_set_update)
    also have "\<dots> = (bit_set (sbf_filter sbf) pos
                       \<or> (pos div 64 = ?b \<and> pos mod 64 = unat (idx mod 64)))"
      by (auto simp: bit_atomicSetBit [OF m64] bit_set_def)
    also have "\<dots> = (bit_set (sbf_filter sbf) pos \<or> pos = bit_index sbf data i)"
      by (simp add: unat_div64 unat_mod64 u pos_eq_iff)
    finally show ?thesis .
  qed
  have "Add_loop sbf data (i # rest) = Inr (sbf\<lparr>sbf_filter := ws\<rparr>)"
    using h b a by (simp add: Let_def)
  moreover have "length ws = length (sbf_filter sbf)"
    using l by simp
  moreover have "\<forall>pos. bit_set ws pos =
      (bit_set (sbf_filter sbf) pos \<or> pos \<in> bit_index sbf data ` set (i # rest))"
    using c step by (auto simp: bi)
  ultimately show ?case by blast
qed

text \<open>
  C8. On a filter with the shape the constructor gives (\<open>wf_sbf\<close>) and \<open>m \<ge> 1\<close>,
  \<open>Check\<close> returns true iff every one of the \<open>k\<close> bits at the indices
  \<open>hash_i(data) mod m\<close> is set; and \<open>Add\<close> returns a filter of the same shape on
  which \<open>Check\<close> of the same element, called next, returns true.
\<close>

theorem Check_after_Add:
  assumes "wf_sbf sbf" "sbf_m sbf \<noteq> 0"
  shows "Check sbf data =
           Inr (\<forall>i < unat (sbf_k sbf). bit_set (sbf_filter sbf) (bit_index sbf data i))
         \<and> (\<exists>sbf'. Add sbf data = Inr sbf' \<and> wf_sbf sbf' \<and> sbf_m sbf' = sbf_m sbf
               \<and> Check sbf' data = Inr True)"
proof -
  from Add_loop_char [OF assms, of "[0..<unat (sbf_k sbf)]" data]
  obtain ws where a: "Add sbf data = Inr (sbf\<lparr>sbf_filter := ws\<rparr>)"
    and l: "length ws = length (sbf_filter sbf)"
    and c: "\<forall>pos. bit_set ws pos =
              (bit_set (sbf_filter sbf) pos
               \<or> pos \<in> bit_index sbf data ` set [0..<unat (sbf_k sbf)])"
    by (auto simp: Add_def)
  let ?sbf' = "sbf\<lparr>sbf_filter := ws\<rparr>"
  have wf': "wf_sbf ?sbf'" "sbf_m ?sbf' \<noteq> 0"
    using assms l by (simp_all add: wf_sbf_def)
  have bi: "bit_index ?sbf' data = bit_index sbf data"
    by (rule ext) (simp add: bit_index_def)
  have "\<forall>i < unat (sbf_k ?sbf'). bit_set (sbf_filter ?sbf') (bit_index ?sbf' data i)"
    using c by (simp add: bi)
  then have "Check ?sbf' data = Inr True"
    unfolding Check_char [OF wf'] by (intro arg_cong [of _ _ Inr]) blast
  with a wf' show ?thesis
    by (simp add: Check_char [OF assms])
qed

theorem Check_after_Add_witness:
  "Check sbf64 [1, 2] = Inr False
   \<and> (\<exists>sbf'. Add sbf64 [1, 2] = Inr sbf' \<and> Check sbf' [1, 2] = Inr True)"
proof -
  have w: "wf_sbf sbf64" "sbf_m sbf64 \<noteq> 0"
    by (simp_all add: wf_sbf_def sbf64_def)
  have "\<not> (\<forall>i < unat (sbf_k sbf64). bit_set (sbf_filter sbf64) (bit_index sbf64 [1, 2] i))"
    by (simp add: sbf64_def bit_set_def bit_index_def)
  with Check_after_Add [OF w, of "[1, 2]"] show ?thesis
    by auto
qed

section \<open>Properties of decay\<close>

lemma decayLoop_zero: "fst (decayLoop b r s) = 0"
proof (induction b r s rule: decayLoop.induct)
  case (1 bucket decayRate randSrc)
  show ?case
  proof (cases "bucket = 0")
    case True
    then show ?thesis
      by (subst decayLoop.simps) simp
  next
    case False
    obtain x randSrc' where f: "Float64 randSrc = (x, randSrc')"
      by (cases "Float64 randSrc")
    from 1 [OF False f [symmetric]]
    have "fst (decayLoop (decayStep bucket decayRate x) decayRate randSrc') = 0" .
    then show ?thesis
      using False f by (subst decayLoop.simps) simp
  qed
qed

lemma decayBucket_zero: "fst (decayBucket b r s) = 0"
  by (simp add: decayBucket_def decayLoop_zero)

text \<open>
  A worker of \<open>decay\<close> leaves 0 in every word of its chunk, the chunks of the workers
  cover all the words, and so a cycle of \<open>decay\<close> leaves no bit set, whatever the
  decay rate and the random sources: after it \<open>Check\<close> is false for every element.
\<close>

lemma decay_worker_zero:
  assumes "\<forall>j \<in> set js. j < length ws"
  shows "\<exists>ws'. decay_worker ws r s js = Inr ws' \<and> length ws' = length ws
           \<and> (\<forall>j < length ws. ws' ! j = (if j \<in> set js then 0 else ws ! j))"
  using assms
proof (induction js arbitrary: ws s)
  case Nil
  then show ?case by simp
next
  case (Cons j js)
  obtain v s' where d: "decayBucket (ws ! j) r s = (v, s')"
    by (cases "decayBucket (ws ! j) r s")
  have v: "v = 0"
    using decayBucket_zero [of "ws ! j" r s] d by simp
  have j: "j < length ws" and rest: "\<forall>i \<in> set js. i < length (ws[j := 0])"
    using Cons.prems by simp_all
  from Cons.IH [OF rest, of s']
  obtain ws' where w: "decay_worker (ws[j := 0]) r s' js = Inr ws'"
    and l: "length ws' = length ws"
    and c: "\<forall>i < length ws. ws' ! i = (if i \<in> set js then 0 else (ws[j := 0]) ! i)"
    by auto
  have "decay_worker ws r s (j # js) = Inr ws'"
    using j d v w by simp
  moreover have "\<forall>i < length ws. ws' ! i = (if i \<in> set (j # js) then 0 else ws ! i)"
    using c j by (auto simp: nth_list_update)
  ultimately show ?case using l by blast
qed

lemma chunk_snd_le: "snd (chunk nb numCPU i) \<le> nb"
  by (simp add: chunk_def Let_def)

lemma chunk_cover:
  assumes "0 < numCPU" "j < nb"
  shows "\<exists>i < numCPU. fst (chunk nb numCPU i) \<le> j \<and> j < snd (chunk nb numCPU i)"
proof (cases "nb div numCPU = 0")
  case True
  have "fst (chunk nb numCPU 0) \<le> j \<and> j < snd (chunk nb numCPU 0)"
    using True assms(2) by (simp add: chunk_def Let_def)
  with assms(1) show ?thesis by blast
next
  case False
  define c where "c = nb div numCPU"
  have c: "0 < c" using False by (simp add: c_def)
  show ?thesis
  proof (cases "j div c < numCPU - 1")
    case True
    have s: "j div c * c \<le> j"
      by simp
    have e: "j < j div c * c + c"
      using c by (metis add.commute div_mult_mod_eq mod_less_divisor mult.commute nat_add_left_cancel_less)
    have "fst (chunk nb numCPU (j div c)) \<le> j \<and> j < snd (chunk nb numCPU (j div c))"
      using False True s e assms(2) by (simp add: chunk_def Let_def c_def [symmetric])
    moreover have "j div c < numCPU" using True by simp
    ultimately show ?thesis by blast
  next
    case False
    then have "(numCPU - 1) * c \<le> j div c * c"
      by (intro mult_le_mono1) simp
    also have "\<dots> \<le> j" by simp
    finally have "fst (chunk nb numCPU (numCPU - 1)) \<le> j \<and> j < snd (chunk nb numCPU (numCPU - 1))"
      using \<open>nb div numCPU \<noteq> 0\<close> assms(2) by (simp add: chunk_def Let_def c_def [symmetric])
    moreover have "numCPU - 1 < numCPU" using assms(1) by simp
    ultimately show ?thesis by blast
  qed
qed

lemma decay_workers_zero:
  assumes "nb \<le> length ws"
  shows "\<exists>ws'. decay_workers nb numCPU newRand r ws is = Inr ws' \<and> length ws' = length ws
           \<and> (\<forall>j < length ws. ws' ! j =
                 (if \<exists>i \<in> set is. fst (chunk nb numCPU i) \<le> j \<and> j < snd (chunk nb numCPU i)
                  then 0 else ws ! j))"
  using assms
proof (induction "is" arbitrary: ws)
  case Nil
  then show ?case by simp
next
  case (Cons i rest)
  obtain start end1 where ch: "chunk nb numCPU i = (start, end1)"
    by (cases "chunk nb numCPU i")
  have e: "end1 \<le> nb"
    using chunk_snd_le [of nb numCPU i] ch by simp
  then have "\<forall>j \<in> set [start..<end1]. j < length ws"
    using Cons.prems by simp
  from decay_worker_zero [OF this, of r "newRand i"]
  obtain ws1 where w1: "decay_worker ws r (newRand i) [start..<end1] = Inr ws1"
    and l1: "length ws1 = length ws"
    and c1: "\<forall>j < length ws. ws1 ! j = (if j \<in> set [start..<end1] then 0 else ws ! j)"
    by blast
  have "nb \<le> length ws1" using Cons.prems l1 by simp
  from Cons.IH [OF this]
  obtain ws' where w: "decay_workers nb numCPU newRand r ws1 rest = Inr ws'"
    and l: "length ws' = length ws1"
    and c: "\<forall>j < length ws1. ws' ! j =
                 (if \<exists>i \<in> set rest. fst (chunk nb numCPU i) \<le> j \<and> j < snd (chunk nb numCPU i)
                  then 0 else ws1 ! j)"
    by blast
  have "decay_workers nb numCPU newRand r ws (i # rest) = Inr ws'"
    using ch w1 w by simp
  moreover have "\<forall>j < length ws. ws' ! j =
                 (if \<exists>i \<in> set (i # rest). fst (chunk nb numCPU i) \<le> j \<and> j < snd (chunk nb numCPU i)
                  then 0 else ws ! j)"
    using c c1 l1 ch by auto
  ultimately show ?case using l l1 by auto
qed

lemma decay_clears_filter:
  assumes "unat (sbf_numBuckets sbf) = length (sbf_filter sbf)" "0 < numCPU"
  shows "decay numCPU newRand sbf =
           Inr (sbf\<lparr>sbf_filter := replicate (length (sbf_filter sbf)) 0\<rparr>)"
proof -
  let ?nb = "unat (sbf_numBuckets sbf)"
  let ?ws = "sbf_filter sbf"
  have "?nb \<le> length ?ws" using assms(1) by simp
  from decay_workers_zero [OF this, of numCPU newRand "sbf_decayRate sbf" "[0..<numCPU]"]
  obtain ws' where w: "decay_workers ?nb numCPU newRand (sbf_decayRate sbf) ?ws [0..<numCPU] = Inr ws'"
    and l: "length ws' = length ?ws"
    and c: "\<forall>j < length ?ws. ws' ! j =
                 (if \<exists>i \<in> set [0..<numCPU]. fst (chunk ?nb numCPU i) \<le> j \<and> j < snd (chunk ?nb numCPU i)
                  then 0 else ?ws ! j)"
    by blast
  have "ws' ! j = 0" if "j < length ?ws" for j
  proof -
    from that have "j < ?nb" using assms(1) by simp
    from chunk_cover [OF assms(2) this]
    have "\<exists>i \<in> set [0..<numCPU]. fst (chunk ?nb numCPU i) \<le> j \<and> j < snd (chunk ?nb numCPU i)"
      by auto
    with c that show ?thesis by simp
  qed
  then have "ws' = replicate (length ?ws) 0"
    using l by (intro nth_equalityI) simp_all
  then show ?thesis
    using w assms(2) by (simp add: decay_def)
qed

lemma Check_after_decay:
  assumes "wf_sbf sbf" "sbf_m sbf \<noteq> 0" "0 < numCPU"
  shows "\<exists>sbf'. decay numCPU newRand sbf = Inr sbf' \<and> wf_sbf sbf' \<and> set (sbf_filter sbf') \<subseteq> {0}
           \<and> Check sbf' data = Inr False"
proof -
  let ?n = "length (sbf_filter sbf)"
  let ?sbf' = "sbf\<lparr>sbf_filter := replicate ?n 0\<rparr>"
  have m: "unat (sbf_m sbf) = 64 * ?n" and nb: "sbf_numBuckets sbf = sbf_m sbf div 64"
    using assms(1) by (simp_all add: wf_sbf_def)
  have "unat (sbf_numBuckets sbf) = ?n"
    unfolding nb by (simp add: unat_div m)
  then have d: "decay numCPU newRand sbf = Inr ?sbf'"
    using assms(3) by (rule decay_clears_filter)
  have wf': "wf_sbf ?sbf'" "sbf_m ?sbf' \<noteq> 0"
    using assms(1,2) by (simp_all add: wf_sbf_def)
  have k: "0 < unat (sbf_k ?sbf')"
    using assms(1) by (simp add: wf_sbf_def unat_gt_0)
  have "bit_index ?sbf' data 0 div 64 < ?n"
    using bucket_in_range [OF wf', of data 0] by simp
  then have "\<not> bit_set (sbf_filter ?sbf') (bit_index ?sbf' data 0)"
    by (simp add: bit_set_def)
  with k have "\<not> (\<forall>i < unat (sbf_k ?sbf'). bit_set (sbf_filter ?sbf') (bit_index ?sbf' data i))"
    by blast
  then have "Check ?sbf' data = Inr False"
    unfolding Check_char [OF wf'] by simp
  moreover have "set (sbf_filter ?sbf') \<subseteq> {0}"
    by auto
  ultimately show ?thesis
    using d wf'(1) by blast
qed

text \<open>
  C1. The claim: with \<open>decayRate = 0\<close> a decay cycle changes nothing,
  \<open>decayBucket(w, 0, src)\<close> returns \<open>w\<close>, so an element that was added is still
  found by \<open>Check\<close> at any later time. The code does not do this: the loop of
  \<open>decayBucket\<close> runs until its variable \<open>bucket\<close> is 0 and the function returns
  that variable, so the result is 0 for every word, every decay rate and every random
  source. Stated here for rate 0: the word 5 becomes 0, and in the 64-bit filter an
  element that \<open>Check\<close> finds after \<open>Add\<close> is no longer found after one cycle of
  \<open>decay\<close>.
\<close>

theorem decayBucket_rate_zero_returns_zero:
  "fst (decayBucket w (Finite 0) randSrc) = 0
   \<and> fst (decayBucket 5 (Finite 0) (\<lambda>i. 1 / 2)) \<noteq> 5
   \<and> and_then (Add sbf64 [1, 2]) (\<lambda>sbf. Check sbf [1, 2]) = Inr True
   \<and> and_then (and_then (Add sbf64 [1, 2]) (decay 2 (\<lambda>i j. 1 / 2)))
        (\<lambda>sbf. Check sbf [1, 2]) = Inr False"
proof -
  have "and_then (Add sbf64 [1, 2]) (\<lambda>sbf. Check sbf [1, 2]) = Inr True"
    by code_simp
  moreover have "and_then (and_then (Add sbf64 [1, 2]) (decay 2 (\<lambda>i j. 1 / 2)))
        (\<lambda>sbf. Check sbf [1, 2]) = Inr False"
    by code_simp
  ultimately show ?thesis
    by (simp add: decayBucket_zero)
qed

section \<open>Properties of \<^verbatim>\<open>atomicSetBit\<close> under interleaving\<close>

text \<open>A goroutine that runs alone does what \<open>atomicSetBit\<close> says.\<close>

lemma atomicSetBit_alone:
  "atomicSetBit_step n (atomicSetBit_step n (w, NotRead)) = (atomicSetBit w n, Written)"
  by (simp add: atomicSetBit_def)

text \<open>
  When both goroutines read before either writes, the word ends with the bit of \<open>B\<close>
  only: a bit of \<open>A\<close> that was not set before is not set after.
\<close>

lemma lost_update:
  "run_schedule na nb [GoA, GoB, GoA, GoB] (w, NotRead, NotRead)
     = (w OR push_bit (unat nb) 1, Written, Written)"
  by simp

lemma lost_update_bit:
  assumes "\<not> bit w (unat na)" "na \<noteq> nb"
  shows "\<not> bit (fst (run_schedule na nb [GoA, GoB, GoA, GoB] (w, NotRead, NotRead))) (unat na)"
proof -
  have "unat na \<noteq> unat nb"
    using assms(2) by (simp add: word_unat_eq_iff)
  then show ?thesis
    using assms(1) by (auto simp: bit_simps)
qed

text \<open>
  C2. The claim: \<open>setBit\<close> is a true atomic read-modify-write, so two concurrent
  callers that set different bits of the same word never lose an update. The code is
  the plain statement \<^verbatim>\<open>*addr |= mask\<close>. With the word 0 and the goroutines \<open>A\<close>
  (bit 0) and \<open>B\<close> (bit 1): when both read before either writes, the word ends as 2
  and the bit of \<open>A\<close> is lost; when \<open>A\<close> finishes before \<open>B\<close> starts, the word
  ends as 3.
\<close>

theorem atomicSetBit_loses_update:
  "run_schedule 0 1 [GoA, GoB, GoA, GoB] (0, NotRead, NotRead) = (2, Written, Written)
   \<and> run_schedule 0 1 [GoA, GoA, GoB, GoB] (0, NotRead, NotRead) = (3, Written, Written)"
  by simp

section \<open>Properties of \<^verbatim>\<open>EstimateFalsePositiveRate\<close>\<close>

text \<open>\<open>OnesCount64\<close> counts the bits that are set.\<close>

lemma bit_drop1: "bit (drop_bit (Suc 0) w) i = bit w (Suc i)" for w :: u64
  by (simp add: bit_drop_bit_eq)

lemma ones_count_card: "ones_count n w = card {i. i < n \<and> bit w i}"
proof (induction n arbitrary: w)
  case 0
  then show ?case by simp
next
  case (Suc n)
  have s: "{i. i < Suc n \<and> bit w i} = (if bit w 0 then {0} else {}) \<union> Suc ` {i. i < n \<and> bit w (Suc i)}"
    by (auto simp: image_iff less_Suc_eq_0_disj)
  have "card (Suc ` {i. i < n \<and> bit w (Suc i)}) = card {i. i < n \<and> bit w (Suc i)}"
    by (rule card_image) simp
  moreover have "card ((if bit w 0 then {0} else {}) \<union> Suc ` {i. i < n \<and> bit w (Suc i)})
      = (if bit w 0 then 1 else 0) + card (Suc ` {i. i < n \<and> bit w (Suc i)})"
    by (subst card_Un_disjoint) auto
  ultimately show ?case
    by (simp add: s Suc.IH bit_drop1)
qed

lemma OnesCount64_card: "OnesCount64 w = card {i. bit w i}"
proof -
  have "{i. i < 64 \<and> bit w i} = {i. bit w i}"
    using bit_imp_le_length [of w] by (auto simp: not_le [symmetric] dest: bit_imp_le_length)
  then show ?thesis
    by (simp add: OnesCount64_def ones_count_card)
qed
















section \<open>Properties of sizing\<close>

subsection \<open>Bounds on \<open>ln 2\<close> and \<open>ln (5 / 4)\<close>\<close>

text \<open>
  The partial sums of the exponential series bound \<open>exp\<close> on \<open>[0, 1]\<close> from below,
  and from above with the Lagrange remainder; they give six digits of \<open>ln 2\<close> and
  \<open>ln (5 / 4)\<close>, and \<open>10 = 2^3 * (5 / 4)\<close>.
\<close>

lemma exp_lower_sum:
  fixes x :: real
  assumes "0 \<le> x"
  shows "(\<Sum>m<n. x ^ m / fact m) \<le> exp x"
proof -
  obtain t where "exp x = (\<Sum>m<n. x ^ m / fact m) + (exp t / fact n) * x ^ n"
    using Maclaurin_exp_le [of x n] by blast
  moreover have "0 \<le> (exp t / fact n) * x ^ n"
    using assms by simp
  ultimately show ?thesis by linarith
qed

lemma exp_upper_sum:
  fixes x :: real
  assumes "0 \<le> x" "x \<le> 1"
  shows "exp x \<le> (\<Sum>m<n. x ^ m / fact m) + 3 * x ^ n / fact n"
proof -
  obtain t where t: "\<bar>t\<bar> \<le> \<bar>x\<bar>"
    and e: "exp x = (\<Sum>m<n. x ^ m / fact m) + (exp t / fact n) * x ^ n"
    using Maclaurin_exp_le [of x n] by blast
  have "t \<le> 1" using t assms by linarith
  then have "exp t \<le> exp 1" by simp
  then have "exp t \<le> 3" using exp_le by linarith
  then have "exp t * (x ^ n / fact n) \<le> 3 * (x ^ n / fact n)"
    using assms(1) by (intro mult_right_mono) simp_all
  then show ?thesis using e by (simp add: field_simps)
qed

lemma ln2_lower: "693146 / 1000000 < ln (2 :: real)"
proof -
  have "exp (693146 / 1000000 :: real) \<le> (\<Sum>m<9. (693146 / 1000000) ^ m / fact m) + 3 * (693146 / 1000000) ^ 9 / fact 9"
    by (rule exp_upper_sum) simp_all
  also have "\<dots> < 2"
    by (simp add: eval_nat_numeral lessThan_Suc fact_numeral)
  finally have "exp (693146 / 1000000 :: real) < exp (ln 2)"
    by simp
  then show ?thesis by (simp only: exp_less_cancel_iff)
qed

lemma ln2_upper: "ln (2 :: real) < 693148 / 1000000"
proof -
  have "(2 :: real) < (\<Sum>m<9. (693148 / 1000000) ^ m / fact m)"
    by (simp add: eval_nat_numeral lessThan_Suc fact_numeral)
  also have "\<dots> \<le> exp (693148 / 1000000)"
    by (rule exp_lower_sum) simp
  finally have "exp (ln 2) < exp (693148 / 1000000 :: real)"
    by simp
  then show ?thesis by (simp only: exp_less_cancel_iff)
qed

lemma ln54_lower: "223143 / 1000000 < ln (5 / 4 :: real)"
proof -
  have "exp (223143 / 1000000 :: real) \<le> (\<Sum>m<7. (223143 / 1000000) ^ m / fact m) + 3 * (223143 / 1000000) ^ 7 / fact 7"
    by (rule exp_upper_sum) simp_all
  also have "\<dots> < 5 / 4"
    by (simp add: eval_nat_numeral lessThan_Suc fact_numeral)
  finally have "exp (223143 / 1000000 :: real) < exp (ln (5 / 4))"
    by simp
  then show ?thesis by (simp only: exp_less_cancel_iff)
qed

lemma ln54_upper: "ln (5 / 4 :: real) < 223144 / 1000000"
proof -
  have "(5 / 4 :: real) < (\<Sum>m<7. (223144 / 1000000) ^ m / fact m)"
    by (simp add: eval_nat_numeral lessThan_Suc fact_numeral)
  also have "\<dots> \<le> exp (223144 / 1000000)"
    by (rule exp_lower_sum) simp
  finally have "exp (ln (5 / 4)) < exp (223144 / 1000000 :: real)"
    by simp
  then show ?thesis by (simp only: exp_less_cancel_iff)
qed

lemma ln10_eq: "ln (10 :: real) = 3 * ln 2 + ln (5 / 4)"
proof -
  have a: "ln (8 :: real) = 3 * ln 2"
    using ln_realpow [of "2 :: real" 3] by simp
  have "ln (10 :: real) = ln 8 + ln (5 / 4)"
    using ln_mult [of "8 :: real" "5 / 4"] by simp
  with a show ?thesis by simp
qed

lemma ln100_eq: "ln (100 :: real) = 6 * ln 2 + 2 * ln (5 / 4)"
  using ln_realpow [of "10 :: real" 2] by (simp add: ln10_eq)

lemma ln1000_eq: "ln (1000 :: real) = 9 * ln 2 + 3 * ln (5 / 4)"
  using ln_realpow [of "10 :: real" 3] by (simp add: ln10_eq)

lemma ln2_sq_bounds:
  "480451377316 / 1000000000000 < (ln 2 * ln 2 :: real)"
  "(ln 2 * ln 2 :: real) < 480454149904 / 1000000000000"
proof -
  have p: "(0 :: real) < 693146 / 1000000" by simp
  have "(693146 / 1000000) * (693146 / 1000000) < ln 2 * ln (2 :: real)"
    using ln2_lower p by (intro mult_strict_mono) simp_all
  then show "480451377316 / 1000000000000 < (ln 2 * ln 2 :: real)"
    by simp
  have q: "(0 :: real) < ln 2" by simp
  have "ln 2 * ln (2 :: real) < (693148 / 1000000) * (693148 / 1000000)"
    using ln2_upper q by (intro mult_strict_mono) simp_all
  then show "(ln 2 * ln 2 :: real) < 480454149904 / 1000000000000"
    by simp
qed




text \<open>
  The four values of the sizing examples do not change when the real argument of
  \<open>ceil\<close> or \<open>round\<close> is off by up to \<open>1 / 100\<close>.
\<close>

lemma sizing_values_stable:
  fixes x :: real
  shows "\<bar>x - 1000 * ln 100 / (ln 2 * ln 2)\<bar> \<le> 1 / 100 \<Longrightarrow> \<lceil>x\<rceil> = 9586"
    and "\<bar>x - 1000 * ln 1000 / (ln 2 * ln 2)\<bar> \<le> 1 / 100 \<Longrightarrow> \<lceil>x\<rceil> = 14378"
    and "\<bar>x - 9586 / 1000 * ln 2\<bar> \<le> 1 / 100 \<Longrightarrow> round x = 7"
    and "\<bar>x - 14378 / 1000 * ln 2\<bar> \<le> 1 / 100 \<Longrightarrow> round x = 10"
proof -
  have d: "(0 :: real) < ln 2 * ln 2" by simp
  note S = ln2_sq_bounds
  have a1: "(9585 + 1 / 100) * (ln 2 * ln 2) < 1000 * ln (100 :: real)"
    unfolding ln100_eq using ln2_lower ln54_lower S(2) by argo
  have a2: "1000 * ln (100 :: real) < (9586 - 1 / 100) * (ln 2 * ln 2)"
    unfolding ln100_eq using ln2_upper ln54_upper S(1) by argo
  have b1: "(14377 + 1 / 100) * (ln 2 * ln 2) < 1000 * ln (1000 :: real)"
    unfolding ln1000_eq using ln2_lower ln54_lower S(2) by argo
  have b2: "1000 * ln (1000 :: real) < (14378 - 1 / 100) * (ln 2 * ln 2)"
    unfolding ln1000_eq using ln2_upper ln54_upper S(1) by argo
  have v1: "9585 + 1 / 100 < 1000 * ln (100 :: real) / (ln 2 * ln 2)"
    "1000 * ln (100 :: real) / (ln 2 * ln 2) < 9586 - 1 / 100"
    using a1 a2 d by (simp_all only: pos_less_divide_eq pos_divide_less_eq)
  have v2: "14377 + 1 / 100 < 1000 * ln (1000 :: real) / (ln 2 * ln 2)"
    "1000 * ln (1000 :: real) / (ln 2 * ln 2) < 14378 - 1 / 100"
    using b1 b2 d by (simp_all only: pos_less_divide_eq pos_divide_less_eq)
  show "\<lceil>x\<rceil> = 9586" if "\<bar>x - 1000 * ln 100 / (ln 2 * ln 2)\<bar> \<le> 1 / 100"
  proof -
    from that v1 have "9585 < x" "x \<le> 9586" by linarith+
    then show ?thesis by (simp add: ceiling_eq_iff)
  qed
  show "\<lceil>x\<rceil> = 14378" if "\<bar>x - 1000 * ln 1000 / (ln 2 * ln 2)\<bar> \<le> 1 / 100"
  proof -
    from that v2 have "14377 < x" "x \<le> 14378" by linarith+
    then show ?thesis by (simp add: ceiling_eq_iff)
  qed
  show "round x = 7" if "\<bar>x - 9586 / 1000 * ln 2\<bar> \<le> 1 / 100"
  proof -
    have "13 / 2 + 1 / 100 \<le> 9586 / 1000 * ln (2 :: real)"
      "9586 / 1000 * ln (2 :: real) < 15 / 2 - 1 / 100"
      using ln2_lower ln2_upper by argo+
    with that have "7 \<le> x + 1 / 2" "x + 1 / 2 < 7 + 1" by linarith+
    then show ?thesis
      unfolding round_def by (intro floor_unique) simp_all
  qed
  show "round x = 10" if "\<bar>x - 14378 / 1000 * ln 2\<bar> \<le> 1 / 100"
  proof -
    have "19 / 2 + 1 / 100 \<le> 14378 / 1000 * ln (2 :: real)"
      "14378 / 1000 * ln (2 :: real) < 21 / 2 - 1 / 100"
      using ln2_lower ln2_upper by argo+
    with that have "10 \<le> x + 1 / 2" "x + 1 / 2 < 10 + 1" by linarith+
    then show ?thesis
      unfolding round_def by (intro floor_unique) simp_all
  qed
qed

subsection \<open>\<^verbatim>\<open>OptimalK\<close>\<close>










subsection \<open>\<^verbatim>\<open>OptimalM\<close>\<close>









section \<open>Properties of teardown\<close>

text \<open>
  On a filter of the shape the constructor gives, no cycle of \<open>decay\<close> panics, and
  one cycle already leaves every word 0 (lemma \<open>decay_clears_filter\<close>).
\<close>

lemma startDecay_char:
  assumes "unat (sbf_numBuckets sbf) = length (sbf_filter sbf)" "\<forall>c \<in> set pending. 0 < fst c"
  shows "startDecay pending sbf =
           Inr (sbf\<lparr>sbf_filter := (if pending = [] then sbf_filter sbf
                                    else replicate (length (sbf_filter sbf)) 0)\<rparr>)"
  using assms
proof (induction pending arbitrary: sbf)
  case Nil
  then show ?case by simp
next
  case (Cons c pending)
  obtain numCPU newRand where c: "c = (numCPU, newRand)"
    by (cases c)
  have pos: "0 < numCPU"
    using Cons.prems(2) c by simp
  let ?z = "sbf\<lparr>sbf_filter := replicate (length (sbf_filter sbf)) 0\<rparr>"
  have d: "decay numCPU newRand sbf = Inr ?z"
    using Cons.prems(1) pos by (rule decay_clears_filter)
  have "startDecay pending ?z =
          Inr (?z\<lparr>sbf_filter := (if pending = [] then sbf_filter ?z
                                   else replicate (length (sbf_filter ?z)) 0)\<rparr>)"
    using Cons.prems by (intro Cons.IH) simp_all
  then show ?case
    by (simp add: c d and_then_def)
qed

text \<open>
  C4, as the code has it. On every filter of the shape the constructor gives whose stop
  channel is open (a filter just constructed, or one that \<open>Add\<close> and \<open>decay\<close>
  have worked on), the first call of \<open>StopDecay\<close> returns: the ticker is stopped,
  the channel closed, the wait group at 0, the size, the hash functions and the shape
  kept. The words are untouched when the goroutine has no cycle of \<open>decay\<close> left to
  run; otherwise they are what these cycles leave, which is 0 everywhere. The call is
  safe exactly once: every second call panics, closing the channel that is already
  closed.
\<close>

theorem StopDecay_exactly_once:
  assumes "wf_sbf sbf" "sbf_stopChan sbf = ChanOpen" "\<forall>c \<in> set pending. 0 < fst c"
  shows "\<exists>sbf1. StopDecay pending sbf = Inr sbf1
           \<and> sbf_decayTicker sbf1 = TickerStopped \<and> sbf_stopChan sbf1 = ChanClosed
           \<and> sbf_wg sbf1 = 0 \<and> wf_sbf sbf1
           \<and> sbf_m sbf1 = sbf_m sbf \<and> sbf_k sbf1 = sbf_k sbf
           \<and> sbf_hashFuncs sbf1 = sbf_hashFuncs sbf
           \<and> sbf_filter sbf1 =
                (if pending = [] then sbf_filter sbf
                 else replicate (length (sbf_filter sbf)) 0)
           \<and> (\<forall>pending'. StopDecay pending' sbf1 = Inl CloseOfClosedChannel)"
proof -
  let ?s = "sbf\<lparr>sbf_decayTicker := TickerStopped, sbf_stopChan := ChanClosed\<rparr>"
  have m: "unat (sbf_m sbf) = 64 * length (sbf_filter sbf)"
    and nb: "sbf_numBuckets sbf = sbf_m sbf div 64"
    using assms(1) by (simp_all add: wf_sbf_def)
  have "unat (sbf_numBuckets ?s) = length (sbf_filter ?s)"
    by (simp add: nb unat_div m)
  from startDecay_char [OF this assms(3)]
  have "startDecay pending ?s =
          Inr (?s\<lparr>sbf_filter := (if pending = [] then sbf_filter sbf
                                  else replicate (length (sbf_filter sbf)) 0)\<rparr>)"
    by simp
  then show ?thesis
    using assms(1,2) by (simp add: StopDecay_def and_then_def wf_sbf_def)
qed

text \<open>
  The 64-bit filter after \<open>Add([1, 2])\<close>, whose word is 8: torn down with no cycle
  pending, and with one cycle pending.
\<close>

theorem StopDecay_exactly_once_witness:
  "Add sbf64 [1, 2] = Inr (sbf64\<lparr>sbf_filter := [8]\<rparr>)
   \<and> (\<exists>sbf1. StopDecay [] (sbf64\<lparr>sbf_filter := [8]\<rparr>) = Inr sbf1
          \<and> sbf_filter sbf1 = [8] \<and> sbf_stopChan sbf1 = ChanClosed
          \<and> StopDecay [] sbf1 = Inl CloseOfClosedChannel)
   \<and> (\<exists>sbf1. StopDecay [(2, \<lambda>i j. 1 / 2)] (sbf64\<lparr>sbf_filter := [8]\<rparr>) = Inr sbf1
          \<and> sbf_filter sbf1 = [0] \<and> sbf_stopChan sbf1 = ChanClosed
          \<and> StopDecay [] sbf1 = Inl CloseOfClosedChannel)"
proof -
  have a: "Add sbf64 [1, 2] = Inr (sbf64\<lparr>sbf_filter := [8]\<rparr>)"
    by (simp add: Add_def hashIndex_def sbf64_def atomicSetBit_def)
  have w: "wf_sbf (sbf64\<lparr>sbf_filter := [8]\<rparr>)"
    "sbf_stopChan (sbf64\<lparr>sbf_filter := [8]\<rparr>) = ChanOpen"
    by (simp_all add: wf_sbf_def sbf64_def)
  have p: "\<forall>c \<in> set []. 0 < fst (c :: nat \<times> (nat \<Rightarrow> rand))"
    "\<forall>c \<in> set [(2, \<lambda>i j. 1 / 2)]. 0 < fst (c :: nat \<times> (nat \<Rightarrow> rand))"
    by simp_all
  from StopDecay_exactly_once [OF w p(1)] StopDecay_exactly_once [OF w p(2)] a
  show ?thesis
    by auto
qed

text \<open>
  The claim C4 as stated (a second call of \<open>StopDecay\<close> is safe and does not fault)
  fails on the 64-bit filter that the constructor builds: the first call returns, the
  second one panics.
\<close>

theorem StopDecay_twice_counterexample:
  "NewStableBloomFilter (\<lambda>data seed. 0) 64 [\<lambda>data. 3] (Finite 0) 1000 = Inr (Inr sbf64)
   \<and> StopDecay [] sbf64 =
       Inr (sbf64\<lparr>sbf_decayTicker := TickerStopped, sbf_stopChan := ChanClosed, sbf_wg := 0\<rparr>)
   \<and> (\<forall>pending. StopDecay pending
        (sbf64\<lparr>sbf_decayTicker := TickerStopped, sbf_stopChan := ChanClosed, sbf_wg := 0\<rparr>) =
       Inl CloseOfClosedChannel)"
proof -
  have "sbf_stopChan sbf64 = ChanOpen"
    by (simp add: sbf64_def)
  then show ?thesis
    by (simp add: StopDecay_def and_then_def sbf64_constructed)
qed

end
